theory Spec2Isabelle
  imports Main "HOL-Library.Multiset"
begin

section \<open>Python strings and dictionaries\<close>

text \<open>
  A Python \<^verbatim>\<open>str\<close> is a sequence of code points. It is modelled as a \<^typ>\<open>string\<close>
  whose characters are the code points below 256; \<^verbatim>\<open>len\<close> is \<^const>\<open>length\<close> and
  concatenation is \<open>@\<close>.
\<close>

definition newline :: char where
  "newline = CHR ''\<newline>''"

text \<open>
  \<^verbatim>\<open>str.isspace\<close> on one code point below 256. The same predicate decides the regular
  expression class \<^verbatim>\<open>\s\<close> and the separators of \<^verbatim>\<open>str.strip()\<close> and
  \<^verbatim>\<open>str.split()\<close>.
\<close>

definition py_isspace :: "char \<Rightarrow> bool" where
  "py_isspace c =
     (let n = (of_char c :: nat)
      in (9 \<le> n \<and> n \<le> 13) \<or> (28 \<le> n \<and> n \<le> 32) \<or> n = 133 \<or> n = 160)"

text \<open>
  \<^verbatim>\<open>str.lower()\<close> on code points below 256, where it maps character by character:
  the upper-case letters lie 32 under their lower case. Beyond that range
  \<^verbatim>\<open>str.lower()\<close> can change the length of a string, so no theorem below relies on
  \<^const>\<open>length\<close> being kept.
\<close>

definition lower_char :: "char \<Rightarrow> char" where
  "lower_char c =
     (let n = (of_char c :: nat)
      in if (65 \<le> n \<and> n \<le> 90) \<or> (192 \<le> n \<and> n \<le> 222 \<and> n \<noteq> 215)
         then char_of (n + 32) else c)"

definition lower :: "string \<Rightarrow> string" where
  "lower s = map lower_char s"

text \<open>\<^verbatim>\<open>s.split("\n")\<close>: the pieces between newlines; never the empty list.\<close>

fun split_nl :: "string \<Rightarrow> string list" where
  "split_nl [] = [[]]"
| "split_nl (c # cs) =
     (if c = newline then [] # split_nl cs
      else (case split_nl cs of [] \<Rightarrow> [[c]] | l # ls \<Rightarrow> (c # l) # ls))"

text \<open>\<^verbatim>\<open>"\n".join(xs)\<close>.\<close>

fun join_nl :: "string list \<Rightarrow> string" where
  "join_nl [] = []"
| "join_nl [x] = x"
| "join_nl (x # y # ys) = x @ newline # join_nl (y # ys)"

text \<open>\<^verbatim>\<open>s.strip()\<close>: leading and trailing whitespace removed.\<close>

definition strip :: "string \<Rightarrow> string" where
  "strip s = rev (dropWhile py_isspace (rev (dropWhile py_isspace s)))"

text \<open>
  \<^verbatim>\<open>s.split()\<close>: the maximal runs of non-whitespace characters. The first argument
  is the token being read.
\<close>

fun split_ws_from :: "string \<Rightarrow> string \<Rightarrow> string list" where
  "split_ws_from cur [] = (if cur = [] then [] else [cur])"
| "split_ws_from cur (c # cs) =
     (if py_isspace c
      then (if cur = [] then split_ws_from [] cs else cur # split_ws_from [] cs)
      else split_ws_from (cur @ [c]) cs)"

definition split_ws :: "string \<Rightarrow> string list" where
  "split_ws s = split_ws_from [] s"

text \<open>\<^verbatim>\<open>sub in s\<close>: \<open>sub\<close> occurs in \<open>s\<close> as a contiguous substring.\<close>

fun startswith :: "string \<Rightarrow> string \<Rightarrow> bool" where
  "startswith s [] = True"
| "startswith [] (p # ps) = False"
| "startswith (c # cs) (p # ps) = (c = p \<and> startswith cs ps)"

fun py_in :: "string \<Rightarrow> string \<Rightarrow> bool" where
  "py_in sub [] = (sub = [])"
| "py_in sub (c # cs) = (startswith (c # cs) sub \<or> py_in sub cs)"

text \<open>
  \<^verbatim>\<open>s.count(sub)\<close>: scanning from the left, every occurrence found is counted and
  the scan resumes behind it; the empty string is found once at every position,
  the end included.
\<close>

fun count_from :: "nat \<Rightarrow> string \<Rightarrow> string \<Rightarrow> nat" where
  "count_from skip sub [] = 0"
| "count_from skip sub (c # cs) =
     (if 0 < skip then count_from (skip - 1) sub cs
      else if startswith (c # cs) sub then Suc (count_from (length sub - 1) sub cs)
      else count_from 0 sub cs)"

definition py_count :: "string \<Rightarrow> string \<Rightarrow> nat" where
  "py_count s sub = (if sub = [] then length s + 1 else count_from 0 sub s)"

text \<open>\<^verbatim>\<open>xs[a:b]\<close> for indices that are not negative.\<close>

definition slice :: "'a list \<Rightarrow> nat \<Rightarrow> nat \<Rightarrow> 'a list" where
  "slice xs a b = drop a (take b xs)"

text \<open>
  A \<^verbatim>\<open>dict\<close> keeps its keys in insertion order: it is a list of pairs with no key
  twice. Assigning to a key that is present replaces the value where it stands, and a
  new key goes to the end.
\<close>

type_synonym ('k, 'v) dict = "('k \<times> 'v) list"

fun dict_set :: "('k, 'v) dict \<Rightarrow> 'k \<Rightarrow> 'v \<Rightarrow> ('k, 'v) dict" where
  "dict_set [] k v = [(k, v)]"
| "dict_set (p # ps) k v = (if fst p = k then (k, v) # ps else p # dict_set ps k v)"

text \<open>\<^verbatim>\<open>{**a, **b}\<close>: the items of \<open>a\<close>, then those of \<open>b\<close> assigned one by one.\<close>

fun dict_merge :: "('k, 'v) dict \<Rightarrow> ('k, 'v) dict \<Rightarrow> ('k, 'v) dict" where
  "dict_merge a [] = a"
| "dict_merge a ((k, v) # b) = dict_merge (dict_set a k v) b"

text \<open>\<^verbatim>\<open>d.get(k)\<close>.\<close>

definition dict_get :: "('k, 'v) dict \<Rightarrow> 'k \<Rightarrow> 'v option" where
  "dict_get d k = map_of d k"

text \<open>
  \<^verbatim>\<open>sorted(xs, key=f)\<close> is a stable sort, as \<^const>\<open>sort_key\<close> is. With
  \<^verbatim>\<open>reverse=True\<close> the list is reversed, sorted and reversed again, which keeps equal
  keys in their original order.
\<close>

definition sorted_by :: "('a \<Rightarrow> nat) \<Rightarrow> 'a list \<Rightarrow> 'a list" where
  "sorted_by f xs = sort_key f xs"

definition sorted_by_reverse :: "('a \<Rightarrow> nat) \<Rightarrow> 'a list \<Rightarrow> 'a list" where
  "sorted_by_reverse f xs = rev (sort_key f (rev xs))"

section \<open>The section parser\<close>

record section_data =
  title :: string
  content :: string
  level :: nat
  doc_type :: string
  word_count :: nat

text \<open>
  \<^verbatim>\<open>re.match(r"^(#{1,6})\s+(.+)$", line, re.MULTILINE)\<close> on one element of
  \<^verbatim>\<open>content.split("\n")\<close>, which holds no newline, so that \<^verbatim>\<open>.\<close> matches every
  character and \<^verbatim>\<open>$\<close> only the end. The result is the pair of the two groups.
  The first group takes every leading \<^verbatim>\<open>#\<close>: with fewer, the next character is a
  \<^verbatim>\<open>#\<close> and not whitespace. The greedy \<^verbatim>\<open>\s+\<close> takes the whole run of whitespace
  behind them, and gives its last character back to \<^verbatim>\<open>.+\<close> when the line ends there.
\<close>

definition header_match :: "string \<Rightarrow> (string \<times> string) option" where
  "header_match line =
     (let hashes = takeWhile (\<lambda>c. c = CHR ''#'') line;
          rest = dropWhile (\<lambda>c. c = CHR ''#'') line;
          spaces = takeWhile py_isspace rest;
          text = dropWhile py_isspace rest
      in if 1 \<le> length hashes \<and> length hashes \<le> 6 \<and> spaces \<noteq> [] then
           if text \<noteq> [] then Some (hashes, text)
           else if 2 \<le> length spaces then Some (hashes, [last spaces])
           else None
         else None)"

record parse_state =
  sections :: "(string, section_data) dict"
  current_section :: "string option"
  current_content :: "string list"
  current_level :: nat

text \<open>The truth value of \<^verbatim>\<open>current_section\<close>: neither \<^verbatim>\<open>None\<close> nor the empty string.\<close>

fun truthy :: "string option \<Rightarrow> bool" where
  "truthy None = False"
| "truthy (Some s) = (s \<noteq> [])"

text \<open>The assignment \<^verbatim>\<open>sections[current_section] = {...}\<close>, made in two places.\<close>

definition save_section :: "string \<Rightarrow> parse_state \<Rightarrow> (string, section_data) dict" where
  "save_section dt st =
     (case current_section st of
        None \<Rightarrow> sections st
      | Some name \<Rightarrow>
          dict_set (sections st) name
            \<lparr>title = name,
             content = strip (join_nl (current_content st)),
             level = current_level st,
             doc_type = dt,
             word_count = length (split_ws (join_nl (current_content st)))\<rparr>)"

text \<open>The body of the loop over the lines.\<close>

definition parse_line :: "string \<Rightarrow> parse_state \<Rightarrow> string \<Rightarrow> parse_state" where
  "parse_line dt st line =
     (case header_match line of
        Some (g1, g2) \<Rightarrow>
          \<lparr>sections = (if truthy (current_section st) then save_section dt st else sections st),
           current_section = Some (dt @ '': '' @ strip g2),
           current_content = [line],
           current_level = length g1\<rparr>
      | None \<Rightarrow>
          (if truthy (current_section st)
           then st\<lparr>current_content := current_content st @ [line]\<rparr>
           else st))"

definition parse_sections :: "string \<Rightarrow> string \<Rightarrow> (string, section_data) dict" where
  "parse_sections cont dt =
     (let st = foldl (parse_line dt)
                 \<lparr>sections = [], current_section = None, current_content = [], current_level = 0\<rparr>
                 (split_nl cont)
      in if truthy (current_section st) then save_section dt st else sections st)"

section \<open>The index and its queries\<close>

record DocumentParser =
  mcp_sections :: "(string, section_data) dict"
  sdk_sections :: "(string, section_data) dict"
  all_sections :: "(string, section_data) dict"

text \<open>
  The constructor. The two documents are the module constants
  \<^verbatim>\<open>MCP_DOCS_CONTENT\<close> and \<^verbatim>\<open>PYTHON_SDK_CONTENT\<close>, which the source leaves to be
  filled in; they are parameters here.
\<close>

definition DocumentParser_init :: "string \<Rightarrow> string \<Rightarrow> DocumentParser" where
  "DocumentParser_init MCP_DOCS_CONTENT PYTHON_SDK_CONTENT =
     (let mcp = parse_sections MCP_DOCS_CONTENT ''MCP Documentation'';
          sdk = parse_sections PYTHON_SDK_CONTENT ''Python SDK''
      in \<lparr>mcp_sections = mcp, sdk_sections = sdk, all_sections = dict_merge mcp sdk\<rparr>)"

text \<open>
  The dictionaries that the queries return. They share four entries, those of
  \<^verbatim>\<open>get_section_list\<close>; the two searches add their own.
\<close>

record summary =
  section_name :: string
  doc_type :: string
  level :: nat
  word_count :: nat

record name_result = summary +
  preview :: string

record text_result = summary +
  matching_context :: string
  match_count :: nat

subsection \<open>Search in the section names\<close>

definition make_preview :: "string \<Rightarrow> string" where
  "make_preview c = (if 200 < length c then take 200 c @ ''...'' else c)"

text \<open>The body of the loop over \<^verbatim>\<open>all_sections.items()\<close>.\<close>

definition name_step ::
  "string \<Rightarrow> bool \<Rightarrow> name_result list \<Rightarrow> string \<times> section_data \<Rightarrow> name_result list" where
  "name_step search_keyword case_sensitive results item =
     (let search_name = (if case_sensitive then fst item else lower (fst item))
      in if py_in search_keyword search_name
         then results @
           [\<lparr>section_name = fst item,
             doc_type = section_data.doc_type (snd item),
             level = section_data.level (snd item),
             word_count = section_data.word_count (snd item),
             preview = make_preview (content (snd item))\<rparr>]
         else results)"

definition name_results :: "DocumentParser \<Rightarrow> string \<Rightarrow> bool \<Rightarrow> name_result list" where
  "name_results self keyword case_sensitive =
     foldl (name_step (if case_sensitive then keyword else lower keyword) case_sensitive)
       [] (all_sections self)"

definition search_by_section_name ::
  "DocumentParser \<Rightarrow> string \<Rightarrow> bool \<Rightarrow> name_result list" where
  "search_by_section_name self keyword case_sensitive =
     sorted_by summary.level (name_results self keyword case_sensitive)"

subsection \<open>Search in the section contents\<close>

text \<open>\<^verbatim>\<open>enumerate(xs)\<close>.\<close>

definition enumerate_from0 :: "'a list \<Rightarrow> (nat \<times> 'a) list" where
  "enumerate_from0 xs = zip [0 ..< length xs] xs"

text \<open>The body of the inner loop over the numbered lines of one section.\<close>

definition context_step ::
  "string \<Rightarrow> bool \<Rightarrow> string list \<Rightarrow> string list \<Rightarrow> nat \<times> string \<Rightarrow> string list" where
  "context_step search_keyword case_sensitive content_lines matching_lines il =
     (let search_line = (if case_sensitive then snd il else lower (snd il))
      in if py_in search_keyword search_line
         then (let context_start = nat (max 0 (int (fst il) - 1));
                   context_end = min (length content_lines) (fst il + 2)
               in matching_lines @ slice content_lines context_start context_end)
         else matching_lines)"

definition text_step ::
  "string \<Rightarrow> bool \<Rightarrow> text_result list \<Rightarrow> string \<times> section_data \<Rightarrow> text_result list" where
  "text_step search_keyword case_sensitive results item =
     (let search_content =
            (if case_sensitive then content (snd item) else lower (content (snd item)))
      in if py_in search_keyword search_content
         then (let content_lines = split_nl (content (snd item));
                   matching_lines =
                     foldl (context_step search_keyword case_sensitive content_lines)
                       [] (enumerate_from0 content_lines)
               in results @
                 [\<lparr>section_name = fst item,
                   doc_type = section_data.doc_type (snd item),
                   level = section_data.level (snd item),
                   word_count = section_data.word_count (snd item),
                   matching_context = join_nl (slice matching_lines 0 10),
                   match_count = py_count search_content search_keyword\<rparr>])
         else results)"

definition text_results :: "DocumentParser \<Rightarrow> string \<Rightarrow> bool \<Rightarrow> text_result list" where
  "text_results self keyword case_sensitive =
     foldl (text_step (if case_sensitive then keyword else lower keyword) case_sensitive)
       [] (all_sections self)"

definition search_by_content_text ::
  "DocumentParser \<Rightarrow> string \<Rightarrow> bool \<Rightarrow> text_result list" where
  "search_by_content_text self keyword case_sensitive =
     sorted_by_reverse match_count (text_results self keyword case_sensitive)"

subsection \<open>Lookup and listing\<close>

text \<open>
  \<^verbatim>\<open>get_section_content\<close> answers with \<^verbatim>\<open>self.all_sections.get(section_name)\<close>, where
  \<^const>\<open>None\<close> stands for Python's \<^verbatim>\<open>None\<close>. The second component is the object as the
  call leaves it.
\<close>

definition get_section_content ::
  "DocumentParser \<Rightarrow> string \<Rightarrow> section_data option \<times> DocumentParser" where
  "get_section_content self name = (dict_get (all_sections self) name, self)"

definition get_section_list :: "DocumentParser \<Rightarrow> summary list" where
  "get_section_list self =
     map (\<lambda>item.
            \<lparr>section_name = fst item,
             doc_type = section_data.doc_type (snd item),
             level = section_data.level (snd item),
             word_count = section_data.word_count (snd item)\<rparr>)
       (all_sections self)"

section \<open>Notions of the specification\<close>

text \<open>
  The specification speaks of header lines, of the text of a header and of a section as
  a header line with the lines up to the next header. These definitions say it in terms
  of the lines of a document; the theorems below relate them to what the parser builds.
\<close>

definition is_header :: "string \<Rightarrow> bool" where
  "is_header line = (header_match line \<noteq> None)"

definition header_level :: "string \<Rightarrow> nat" where
  "header_level line = (case header_match line of Some (g1, g2) \<Rightarrow> length g1 | None \<Rightarrow> 0)"

definition header_title :: "string \<Rightarrow> string" where
  "header_title line = (case header_match line of Some (g1, g2) \<Rightarrow> strip g2 | None \<Rightarrow> [])"

definition qualified_name :: "string \<Rightarrow> string \<Rightarrow> string" where
  "qualified_name dt line = dt @ '': '' @ header_title line"

text \<open>Every header line of a document, paired with the lines before the next header.\<close>

fun header_chunks :: "string list \<Rightarrow> (string \<times> string list) list" where
  "header_chunks [] = []"
| "header_chunks (l # ls) =
     (if is_header l
      then (l, takeWhile (\<lambda>x. \<not> is_header x) ls) # header_chunks ls
      else header_chunks ls)"

definition chunk_lines :: "string \<times> string list \<Rightarrow> string list" where
  "chunk_lines ch = fst ch # snd ch"

text \<open>The dictionary item that a header line and its lines stand for.\<close>

definition chunk_section :: "string \<Rightarrow> string \<times> string list \<Rightarrow> string \<times> section_data" where
  "chunk_section dt ch =
     (qualified_name dt (fst ch),
      \<lparr>title = qualified_name dt (fst ch),
       content = strip (join_nl (chunk_lines ch)),
       level = header_level (fst ch),
       doc_type = dt,
       word_count = length (split_ws (join_nl (chunk_lines ch)))\<rparr>)"

text \<open>
  The ways in which the header pattern divides a whole line that holds no newline: the
  marks of the first group, the whitespace, and the text of the second group.
\<close>

definition header_shape :: "string \<Rightarrow> string \<Rightarrow> string \<Rightarrow> bool" where
  "header_shape hs ws body =
     (hs \<noteq> [] \<and> length hs \<le> 6 \<and> (\<forall>c \<in> set hs. c = CHR ''#'')
      \<and> ws \<noteq> [] \<and> (\<forall>c \<in> set ws. py_isspace c)
      \<and> body \<noteq> [])"

text \<open>
  The number of non-overlapping occurrences of \<open>sub\<close> in \<open>s\<close>. An occurrence is a
  position at which \<open>sub\<close> stands in \<open>s\<close>; a list of positions is a choice of
  occurrences that do not overlap when every position lies behind the earlier ones and
  behind the text they cover; the number is the length of the longest such list.
\<close>

definition occurs_at :: "string \<Rightarrow> string \<Rightarrow> nat \<Rightarrow> bool" where
  "occurs_at sub s p = (p + length sub \<le> length s \<and> take (length sub) (drop p s) = sub)"

definition disjoint_occurrences :: "string \<Rightarrow> string \<Rightarrow> nat list \<Rightarrow> bool" where
  "disjoint_occurrences sub s ps =
     (sorted_wrt (\<lambda>p q. p < q \<and> p + length sub \<le> q) ps \<and> (\<forall>p \<in> set ps. occurs_at sub s p))"

definition occurrence_count :: "string \<Rightarrow> string \<Rightarrow> nat \<Rightarrow> bool" where
  "occurrence_count sub s n =
     ((\<exists>ps. disjoint_occurrences sub s ps \<and> length ps = n)
      \<and> (\<forall>ps. disjoint_occurrences sub s ps \<longrightarrow> length ps \<le> n))"

text \<open>The keyword and the searched text, as the case flag leaves them.\<close>

definition fold_case :: "bool \<Rightarrow> string \<Rightarrow> string" where
  "fold_case case_sensitive s = (if case_sensitive then s else lower s)"

text \<open>
  The lines \<open>i - 1\<close> to \<open>i + 1\<close> of \<open>ls\<close> that exist: subtraction on \<^typ>\<open>nat\<close>
  stops at 0, and the upper end is cut at the length.
\<close>

definition context_window :: "string list \<Rightarrow> nat \<Rightarrow> string list" where
  "context_window ls i = map (\<lambda>j. ls ! j) [i - 1 ..< min (length ls) (i + 2)]"

definition matching_indices :: "string \<Rightarrow> bool \<Rightarrow> string list \<Rightarrow> nat list" where
  "matching_indices keyword case_sensitive ls =
     filter (\<lambda>i. py_in (fold_case case_sensitive keyword) (fold_case case_sensitive (ls ! i)))
       [0 ..< length ls]"

text \<open>The states of the parsing loop with a section open, and the section it saves.\<close>

definition open_state ::
  "(string, section_data) dict \<Rightarrow> string \<Rightarrow> string list \<Rightarrow> nat \<Rightarrow> parse_state" where
  "open_state secs name cc lvl =
     \<lparr>sections = secs, current_section = Some name, current_content = cc, current_level = lvl\<rparr>"

definition built :: "string \<Rightarrow> string \<Rightarrow> string list \<Rightarrow> nat \<Rightarrow> section_data" where
  "built dt name cc lvl =
     \<lparr>title = name, content = strip (join_nl cc), level = lvl, doc_type = dt,
      word_count = length (split_ws (join_nl cc))\<rparr>"

definition finish :: "string \<Rightarrow> parse_state \<Rightarrow> (string, section_data) dict" where
  "finish dt st = (if truthy (current_section st) then save_section dt st else sections st)"

section \<open>Auxiliary definitions\<close>

text \<open>The dictionaries that the two searches append for one item of the index.\<close>

definition name_entry :: "string \<times> section_data \<Rightarrow> name_result" where
  "name_entry item =
     \<lparr>section_name = fst item,
      doc_type = section_data.doc_type (snd item),
      level = section_data.level (snd item),
      word_count = section_data.word_count (snd item),
      preview = make_preview (content (snd item))\<rparr>"

definition text_entry :: "string \<Rightarrow> bool \<Rightarrow> string \<times> section_data \<Rightarrow> text_result" where
  "text_entry search_keyword case_sensitive item =
     \<lparr>section_name = fst item,
      doc_type = section_data.doc_type (snd item),
      level = section_data.level (snd item),
      word_count = section_data.word_count (snd item),
      matching_context =
        join_nl (slice
          (foldl (context_step search_keyword case_sensitive (split_nl (content (snd item))))
             [] (enumerate_from0 (split_nl (content (snd item)))))
          0 10),
      match_count = py_count (fold_case case_sensitive (content (snd item))) search_keyword\<rparr>"

text \<open>
  Two small documents and the index built from them, and the index of a document with
  one section of 250 characters, on which the theorems are tried.
\<close>

definition sample_mcp_doc :: string where
  "sample_mcp_doc =
     ''preface\<newline># Intro\<newline>hello\<newline>hello\<newline>x\<newline>## Setup\<newline>hello hello hello\<newline># Usage\<newline>bye''"

definition sample_sdk_doc :: string where
  "sample_sdk_doc = ''# API\<newline>Hello HELLO\<newline>''"

definition sample_index :: DocumentParser where
  "sample_index = DocumentParser_init sample_mcp_doc sample_sdk_doc"

definition long_doc :: string where
  "long_doc = ''# A\<newline>'' @ replicate 246 (CHR ''a'')"

definition long_index :: DocumentParser where
  "long_index = DocumentParser_init long_doc []"

section \<open>Strings and dictionaries: basic facts\<close>

lemma split_nl_not_Nil: "split_nl s \<noteq> []"
  by (induction s) (auto split: list.splits)

lemma join_split_nl: "join_nl (split_nl s) = s"
proof (induction s)
  case Nil
  show ?case by simp
next
  case (Cons c cs)
  obtain l ls where sp: "split_nl cs = l # ls"
    using split_nl_not_Nil [of cs] by (cases "split_nl cs") auto
  show ?case
  proof (cases "c = newline")
    case True
    with Cons sp show ?thesis by simp
  next
    case False
    with Cons sp show ?thesis by (cases ls) auto
  qed
qed

lemma map_of_dict_set: "map_of (dict_set d k v) = (map_of d)(k \<mapsto> v)"
  by (induction d) (auto simp: fun_eq_iff)

lemma keys_dict_set:
  "map fst (dict_set d k v) = (if k \<in> fst ` set d then map fst d else map fst d @ [k])"
  by (induction d) auto

lemma distinct_dict_set: "distinct (map fst d) \<Longrightarrow> distinct (map fst (dict_set d k v))"
  by (simp add: keys_dict_set)

lemma dict_set_fresh: "k \<notin> fst ` set d \<Longrightarrow> dict_set d k v = d @ [(k, v)]"
  by (induction d) auto

lemma distinct_dict_merge: "distinct (map fst a) \<Longrightarrow> distinct (map fst (dict_merge a b))"
  by (induction a b rule: dict_merge.induct) (auto simp: distinct_dict_set)

lemma map_of_dict_merge: "map_of (dict_merge a b) = map_of a ++ map_of (rev b)"
  by (induction a b rule: dict_merge.induct) (auto simp: map_of_dict_set fun_eq_iff map_add_def split: option.splits)

lemma dict_merge_fresh:
  "distinct (map fst b) \<Longrightarrow> fst ` set a \<inter> fst ` set b = {} \<Longrightarrow> dict_merge a b = a @ b"
proof (induction a b rule: dict_merge.induct)
  case (1 a)
  show ?case by simp
next
  case (2 a k v b)
  have "dict_set a k v = a @ [(k, v)]" using 2(3) by (intro dict_set_fresh) auto
  moreover have "dict_merge (a @ [(k, v)]) b = (a @ [(k, v)]) @ b"
    using 2 calculation by (intro 2(1)[unfolded calculation]) auto
  ultimately show ?case by simp
qed

lemma dict_merge_append: "dict_merge a (b @ c) = dict_merge (dict_merge a b) c"
  by (induction a b rule: dict_merge.induct) auto

lemma dict_merge_Nil_distinct: "distinct (map fst kvs) \<Longrightarrow> dict_merge [] kvs = kvs"
  using dict_merge_fresh [of kvs "[]"] by simp



subsection \<open>Sorting\<close>

lemma sorted_by_sorted: "sorted (map f (sorted_by f xs))"
  by (simp add: sorted_by_def)

lemma sorted_by_stable: "filter (\<lambda>x. f x = k) (sorted_by f xs) = filter (\<lambda>x. f x = k) xs"
  by (simp add: sorted_by_def sort_key_stable)

lemma mset_sorted_by: "mset (sorted_by f xs) = mset xs"
  by (simp add: sorted_by_def)

lemma sorted_by_reverse_sorted: "sorted_wrt (\<lambda>a b. f b \<le> f a) (sorted_by_reverse f xs)"
proof -
  have "sorted (map f (sort_key f (rev xs)))" by simp
  then have "sorted_wrt (\<lambda>a b. f a \<le> f b) (sort_key f (rev xs))"
    by (simp only: sorted_map)
  then show ?thesis
    by (simp add: sorted_by_reverse_def sorted_wrt_rev)
qed

lemma sorted_by_reverse_stable:
  "filter (\<lambda>x. f x = k) (sorted_by_reverse f xs) = filter (\<lambda>x. f x = k) xs"
  by (simp add: sorted_by_reverse_def rev_filter [symmetric] sort_key_stable)

lemma mset_sorted_by_reverse: "mset (sorted_by_reverse f xs) = mset xs"
  by (simp add: sorted_by_reverse_def)

lemma set_sorted_by_reverse: "set (sorted_by_reverse f xs) = set xs"
  by (simp add: sorted_by_reverse_def)

lemma set_sorted_by: "set (sorted_by f xs) = set xs"
  by (simp add: sorted_by_def)

section \<open>The header pattern\<close>

text \<open>
  The lines given to the pattern hold no newline. Where \<^const>\<open>header_match\<close> answers,
  the line divides as the pattern asks, and of all such divisions of a line it answers
  with the one that the greedy quantifiers choose: the marks are the same in all of them,
  and no other leaves a shorter text to the second group.
\<close>

lemma split_nl_no_newline: "l \<in> set (split_nl s) \<Longrightarrow> newline \<notin> set l"
proof (induction s arbitrary: l)
  case Nil
  then show ?case by simp
next
  case (Cons c cs)
  obtain x xs where sp: "split_nl cs = x # xs"
    using split_nl_not_Nil [of cs] by (cases "split_nl cs") auto
  show ?case
  proof (cases "c = newline")
    case True
    with Cons show ?thesis by auto
  next
    case False
    with Cons.prems sp have "l = c # x \<or> l \<in> set xs" by simp
    then show ?thesis
    proof
      assume "l = c # x"
      moreover have "newline \<notin> set x" using Cons.IH [of x] sp by simp
      ultimately show ?thesis using False by auto
    next
      assume "l \<in> set xs"
      then show ?thesis using Cons.IH [of l] sp by simp
    qed
  qed
qed

lemma hash_not_space: "\<not> py_isspace (CHR ''#'')"
  by (simp add: py_isspace_def)

lemma header_match_parts:
  assumes "takeWhile (\<lambda>c. c = CHR ''#'') line = hs"
    and "takeWhile py_isspace (dropWhile (\<lambda>c. c = CHR ''#'') line) = sp"
    and "dropWhile py_isspace (dropWhile (\<lambda>c. c = CHR ''#'') line) = rest"
  shows "header_match line =
         (if 1 \<le> length hs \<and> length hs \<le> 6 \<and> sp \<noteq> [] then
            if rest \<noteq> [] then Some (hs, rest)
            else if 2 \<le> length sp then Some (hs, [last sp])
            else None
          else None)"
  by (simp only: header_match_def Let_def assms)

lemma header_match_sound:
  assumes "header_match line = Some (g1, g2)"
  shows "\<exists>ws. line = g1 @ ws @ g2 \<and> header_shape g1 ws g2"
proof -
  define hashes where "hashes = takeWhile (\<lambda>c. c = CHR ''#'') line"
  define spaces where "spaces = takeWhile py_isspace (dropWhile (\<lambda>c. c = CHR ''#'') line)"
  define tail where "tail = dropWhile py_isspace (dropWhile (\<lambda>c. c = CHR ''#'') line)"
  have line: "line = hashes @ spaces @ tail"
    by (simp add: hashes_def spaces_def tail_def)
  have hs: "\<forall>c \<in> set hashes. c = CHR ''#''"
    unfolding hashes_def by (auto dest: set_takeWhileD)
  have ss: "\<forall>c \<in> set spaces. py_isspace c"
    unfolding spaces_def by (auto dest: set_takeWhileD)
  have hm: "header_match line =
         (if 1 \<le> length hashes \<and> length hashes \<le> 6 \<and> spaces \<noteq> [] then
            if tail \<noteq> [] then Some (hashes, tail)
            else if 2 \<le> length spaces then Some (hashes, [last spaces])
            else None
          else None)"
    by (rule header_match_parts) (simp_all only: hashes_def spaces_def tail_def)
  from assms have ok: "1 \<le> length hashes \<and> length hashes \<le> 6 \<and> spaces \<noteq> []"
    unfolding hm by (simp split: if_splits)
  then have ne: "hashes \<noteq> []" by (cases hashes) simp_all
  show ?thesis
  proof (cases "tail = []")
    case False
    with assms ok have "g1 = hashes \<and> g2 = tail"
      unfolding hm by simp
    moreover have "header_shape hashes spaces tail"
      using ok ne hs ss False by (simp add: header_shape_def)
    ultimately show ?thesis using line by blast
  next
    case True
    with assms ok have g: "g1 = hashes \<and> g2 = [last spaces]" and two: "2 \<le> length spaces"
      unfolding hm by (simp_all split: if_splits)
    have "length (butlast spaces) \<noteq> 0" using two by simp
    then have "butlast spaces \<noteq> []" by (simp only: length_0_conv not_False_eq_True)
    moreover have "\<forall>c \<in> set (butlast spaces). py_isspace c"
      using ss by (blast dest: in_set_butlastD)
    ultimately have "header_shape hashes (butlast spaces) [last spaces]"
      using ok ne hs by (simp add: header_shape_def)
    moreover have "line = hashes @ butlast spaces @ [last spaces]"
      using line True ok by simp
    ultimately show ?thesis using g by blast
  qed
qed

lemma header_match_greedy:
  assumes "line = hs @ ws @ body" "header_shape hs ws body"
  shows "\<exists>g2. header_match line = Some (hs, g2) \<and> length g2 \<le> length body"
proof -
  from assms(2) obtain w ws' where ws: "ws = w # ws'" and w: "py_isspace w"
    by (cases ws) (auto simp: header_shape_def)
  from w have nh: "w \<noteq> CHR ''#''" using hash_not_space by auto
  have all: "\<forall>c \<in> set hs. c = CHR ''#''" using assms(2) by (simp add: header_shape_def)
  have hashes: "takeWhile (\<lambda>c. c = CHR ''#'') line = hs"
    using all nh by (simp add: assms(1) ws)
  have rest: "dropWhile (\<lambda>c. c = CHR ''#'') line = ws @ body"
    using all nh by (simp add: assms(1) ws)
  have sp: "\<forall>c \<in> set ws. py_isspace c" using assms(2) by (simp add: header_shape_def)
  have spaces: "takeWhile py_isspace (dropWhile (\<lambda>c. c = CHR ''#'') line) =
                ws @ takeWhile py_isspace body"
    unfolding rest using sp by simp
  have dtail: "dropWhile py_isspace (dropWhile (\<lambda>c. c = CHR ''#'') line) =
               dropWhile py_isspace body"
    unfolding rest using sp by simp
  have "hs \<noteq> []" using assms(2) by (simp add: header_shape_def)
  then have len1: "1 \<le> length hs" by (cases hs) simp_all
  have len: "1 \<le> length hs" "length hs \<le> 6" "body \<noteq> []" "ws \<noteq> []"
    using assms(2) len1 by (simp_all add: header_shape_def)
  note hm = header_match_parts [OF hashes spaces dtail]
  show ?thesis
  proof (cases "dropWhile py_isspace body = []")
    case False
    then have "header_match line = Some (hs, dropWhile py_isspace body)"
      using len by (simp add: hm)
    moreover have "length (dropWhile py_isspace body) \<le> length body"
      by (rule length_dropWhile_le)
    ultimately show ?thesis by blast
  next
    case True
    then have "\<forall>x \<in> set body. py_isspace x" by (simp only: dropWhile_eq_Nil_conv)
    then have "takeWhile py_isspace body = body" by (simp only: takeWhile_eq_all_conv)
    then have two: "2 \<le> length (ws @ takeWhile py_isspace body)"
      using len(3,4) by (cases body; cases ws) simp_all
    have "header_match line = Some (hs, [last (ws @ takeWhile py_isspace body)])"
      using len(1,2,4) True two by (simp only: hm) simp
    moreover have "length [last (ws @ takeWhile py_isspace body)] \<le> length body"
      using len(3) by (cases body) simp_all
    ultimately show ?thesis by blast
  qed
qed

section \<open>Counting occurrences\<close>

text \<open>
  The scan of \<^const>\<open>count_from\<close> finds a choice of occurrences that do not overlap, and
  no such choice is longer; for the empty string these are all positions of \<open>s\<close>, its
  end included.
\<close>

lemma startswith_occurs: "startswith s sub = occurs_at sub s 0"
  by (induction s sub rule: startswith.induct) (auto simp: occurs_at_def)

lemma occurs_at_Suc: "occurs_at sub (c # cs) (Suc p) = occurs_at sub cs p"
  by (simp add: occurs_at_def)

lemma disjoint_shift_up:
  assumes "disjoint_occurrences sub cs qs"
  shows "disjoint_occurrences sub (c # cs) (map Suc qs)"
  using assms by (simp add: disjoint_occurrences_def sorted_wrt_map occurs_at_Suc)

lemma disjoint_shift_down:
  assumes "disjoint_occurrences sub (c # cs) ps" "\<forall>p \<in> set ps. 0 < p"
  shows "disjoint_occurrences sub cs (map (\<lambda>p. p - 1) ps)"
proof -
  have "sorted_wrt (\<lambda>p q. p - 1 < q - 1 \<and> p - 1 + length sub \<le> q - 1) ps"
  proof (rule sorted_wrt_mono_rel [of ps "\<lambda>p q. p < q \<and> p + length sub \<le> q"])
    fix p q
    assume "p \<in> set ps" "q \<in> set ps" "p < q \<and> p + length sub \<le> q"
    with assms(2) show "p - 1 < q - 1 \<and> p - 1 + length sub \<le> q - 1"
      by (auto dest!: bspec [of _ _ p])
  next
    show "sorted_wrt (\<lambda>p q. p < q \<and> p + length sub \<le> q) ps"
      using assms(1) by (simp add: disjoint_occurrences_def)
  qed
  moreover have "occurs_at sub cs (p - 1)" if "p \<in> set ps" for p
  proof -
    from that assms(2) have "0 < p" by blast
    then obtain p' where "p = Suc p'" by (cases p) simp_all
    moreover from that assms(1) have "occurs_at sub (c # cs) p"
      by (simp add: disjoint_occurrences_def)
    ultimately show ?thesis by (simp add: occurs_at_Suc)
  qed
  ultimately show ?thesis
    by (simp add: disjoint_occurrences_def sorted_wrt_map)
qed

lemma count_from_reached:
  "sub \<noteq> [] \<Longrightarrow>
   \<exists>ps. disjoint_occurrences sub s ps \<and> (\<forall>p \<in> set ps. skip \<le> p)
        \<and> length ps = count_from skip sub s"
proof (induction s arbitrary: skip)
  case Nil
  have "disjoint_occurrences sub [] []" by (simp add: disjoint_occurrences_def)
  then show ?case by force
next
  case (Cons c cs)
  show ?case
  proof (cases "0 < skip")
    case True
    from Cons.IH [OF Cons.prems, of "skip - 1"] obtain qs where
      qs: "disjoint_occurrences sub cs qs" "\<forall>p \<in> set qs. skip - 1 \<le> p"
          "length qs = count_from (skip - 1) sub cs" by blast
    have "disjoint_occurrences sub (c # cs) (map Suc qs)" using qs(1) by (rule disjoint_shift_up)
    moreover have "\<forall>p \<in> set (map Suc qs). skip \<le> p" using qs(2) by auto
    moreover have "length (map Suc qs) = count_from skip sub (c # cs)" using qs(3) True by simp
    ultimately show ?thesis by blast
  next
    case False
    then have skip: "skip = 0" by simp
    show ?thesis
    proof (cases "startswith (c # cs) sub")
      case True
      from Cons.IH [OF Cons.prems, of "length sub - 1"] obtain qs where
        qs: "disjoint_occurrences sub cs qs" "\<forall>p \<in> set qs. length sub - 1 \<le> p"
            "length qs = count_from (length sub - 1) sub cs" by blast
      have up: "disjoint_occurrences sub (c # cs) (map Suc qs)" using qs(1) by (rule disjoint_shift_up)
      have "disjoint_occurrences sub (c # cs) (0 # map Suc qs)"
        using up True qs(2) Cons.prems
        by (auto simp: disjoint_occurrences_def startswith_occurs)
      moreover have "length (0 # map Suc qs) = count_from skip sub (c # cs)"
        using qs(3) True skip by simp
      ultimately show ?thesis using skip by (intro exI [of _ "0 # map Suc qs"]) simp
    next
      case False
      from Cons.IH [OF Cons.prems, of 0] obtain qs where
        qs: "disjoint_occurrences sub cs qs" "length qs = count_from 0 sub cs" by blast
      have "disjoint_occurrences sub (c # cs) (map Suc qs)" using qs(1) by (rule disjoint_shift_up)
      moreover have "length (map Suc qs) = count_from skip sub (c # cs)"
        using qs(2) False skip by simp
      ultimately show ?thesis using skip by (intro exI [of _ "map Suc qs"]) simp
    qed
  qed
qed

lemma count_from_greatest:
  "sub \<noteq> [] \<Longrightarrow> disjoint_occurrences sub s ps \<Longrightarrow> \<forall>p \<in> set ps. skip \<le> p \<Longrightarrow>
   length ps \<le> count_from skip sub s"
proof (induction s arbitrary: skip ps)
  case Nil
  have "ps = []"
  proof (cases ps)
    case (Cons p ps')
    with Nil.prems(1,2) show ?thesis
      by (cases sub) (auto simp: disjoint_occurrences_def occurs_at_def)
  qed simp
  then show ?case by simp
next
  case (Cons c cs)
  show ?case
  proof (cases "0 < skip")
    case True
    have pos: "\<forall>p \<in> set ps. 0 < p" using True Cons.prems(3) by auto
    have "disjoint_occurrences sub cs (map (\<lambda>p. p - 1) ps)"
      using Cons.prems(2) pos by (rule disjoint_shift_down)
    moreover have "\<forall>p \<in> set (map (\<lambda>p. p - 1) ps). skip - 1 \<le> p"
      using Cons.prems(3) by auto
    ultimately have "length (map (\<lambda>p. p - 1) ps) \<le> count_from (skip - 1) sub cs"
      by (rule Cons.IH [OF Cons.prems(1)])
    with True show ?thesis by simp
  next
    case False
    then have skip: "skip = 0" by simp
    show ?thesis
    proof (cases "startswith (c # cs) sub")
      case True
      show ?thesis
      proof (cases ps)
        case Nil
        then show ?thesis by simp
      next
        case (Cons p0 rest)
        have far: "\<forall>q \<in> set rest. length sub \<le> q \<and> 0 < q"
          using Cons.prems(2) Cons by (auto simp: disjoint_occurrences_def)
        have "disjoint_occurrences sub (c # cs) rest"
          using Cons.prems(2) Cons by (simp add: disjoint_occurrences_def)
        then have "disjoint_occurrences sub cs (map (\<lambda>p. p - 1) rest)"
          using far by (intro disjoint_shift_down) auto
        moreover have "\<forall>p \<in> set (map (\<lambda>p. p - 1) rest). length sub - 1 \<le> p"
          using far by auto
        ultimately have "length (map (\<lambda>p. p - 1) rest) \<le> count_from (length sub - 1) sub cs"
          by (rule Cons.IH [OF Cons.prems(1)])
        with True skip Cons show ?thesis by simp
      qed
    next
      case False
      have pos: "\<forall>p \<in> set ps. 0 < p"
      proof
        fix p assume "p \<in> set ps"
        with Cons.prems(2) have "occurs_at sub (c # cs) p" by (simp add: disjoint_occurrences_def)
        with False show "0 < p" by (cases p) (auto simp: startswith_occurs)
      qed
      have "disjoint_occurrences sub cs (map (\<lambda>p. p - 1) ps)"
        using Cons.prems(2) pos by (rule disjoint_shift_down)
      moreover have "\<forall>p \<in> set (map (\<lambda>p. p - 1) ps). 0 \<le> p" by simp
      ultimately have "length (map (\<lambda>p. p - 1) ps) \<le> count_from 0 sub cs"
        by (rule Cons.IH [OF Cons.prems(1)])
      with False skip show ?thesis by simp
    qed
  qed
qed

lemma disjoint_empty:
  "disjoint_occurrences [] s ps = (sorted_wrt (<) ps \<and> (\<forall>p \<in> set ps. p \<le> length s))"
proof -
  have "(\<lambda>p q :: nat. p < q \<and> p + length ([] :: string) \<le> q) = (<)"
    by (auto simp: fun_eq_iff)
  then show ?thesis by (simp add: disjoint_occurrences_def occurs_at_def)
qed

lemma empty_occurrences_reached: "disjoint_occurrences [] s [0 ..< length s + 1]"
proof -
  have "sorted_wrt (<) [0 ..< length s + 1]" by (simp only: sorted_wrt_upt)
  moreover have "\<forall>p \<in> set [0 ..< length s + 1]. p \<le> length s" by simp
  ultimately show ?thesis by (simp only: disjoint_empty simp_thms)
qed

lemma empty_occurrences_greatest:
  assumes "disjoint_occurrences [] s ps"
  shows "length ps \<le> length s + 1"
proof -
  from assms have "sorted_wrt (<) ps" by (simp add: disjoint_empty)
  then have "distinct ps" by (simp only: strict_sorted_iff)
  then have "length ps = card (set ps)" by (simp add: distinct_card)
  also have "set ps \<subseteq> {0 ..< length s + 1}"
    using assms by (auto simp: disjoint_empty)
  then have "card (set ps) \<le> card {0 ..< length s + 1}" by (intro card_mono) auto
  finally show ?thesis by simp
qed

lemma py_count_occurrences: "occurrence_count sub s (py_count s sub)"
proof (cases "sub = []")
  case True
  have c: "py_count s [] = length s + 1" by (simp add: py_count_def)
  have "length [0 ..< length s + 1] = length s + 1" by simp
  with empty_occurrences_reached [of s]
  have "\<exists>ps. disjoint_occurrences [] s ps \<and> length ps = length s + 1" by blast
  moreover have "\<forall>ps. disjoint_occurrences [] s ps \<longrightarrow> length ps \<le> length s + 1"
    using empty_occurrences_greatest by blast
  ultimately show ?thesis by (simp only: occurrence_count_def c True simp_thms)
next
  case False
  then have c: "py_count s sub = count_from 0 sub s" by (simp add: py_count_def)
  have "\<exists>ps. disjoint_occurrences sub s ps \<and> length ps = count_from 0 sub s"
    using count_from_reached [OF False, of s 0] by blast
  moreover have "\<forall>ps. disjoint_occurrences sub s ps \<longrightarrow> length ps \<le> count_from 0 sub s"
    using count_from_greatest [OF False, of s _ 0] by simp
  ultimately show ?thesis by (simp only: occurrence_count_def c simp_thms)
qed

section \<open>What the parsing loop computes\<close>

text \<open>
  The loop is followed from a state with a section open and from the initial state.
  In both cases the dictionary returned is the one that receives, in document order,
  the item of every header line with the lines up to the next header.
\<close>

lemma save_open: "save_section dt (open_state secs name cc lvl) = dict_set secs name (built dt name cc lvl)"
  by (simp add: save_section_def open_state_def built_def)

lemma parse_line_header:
  assumes "is_header l" "name \<noteq> []"
  shows "parse_line dt (open_state secs name cc lvl) l =
         open_state (dict_set secs name (built dt name cc lvl)) (qualified_name dt l) [l] (header_level l)"
proof -
  from assms(1) obtain g1 g2 where hm: "header_match l = Some (g1, g2)"
    by (auto simp: is_header_def)
  have "save_section dt (open_state secs name cc lvl) = dict_set secs name (built dt name cc lvl)"
    by (rule save_open)
  then show ?thesis
    using hm assms(2)
    by (simp add: parse_line_def header_title_def header_level_def open_state_def qualified_name_def)
qed

lemma parse_line_body:
  assumes "\<not> is_header l" "name \<noteq> []"
  shows "parse_line dt (open_state secs name cc lvl) l = open_state secs name (cc @ [l]) lvl"
proof -
  from assms(1) have "header_match l = None" by (cases "header_match l") (auto simp: is_header_def)
  with assms(2) show ?thesis by (simp add: parse_line_def open_state_def)
qed

lemma chunk_section_built:
  "chunk_section dt (l, b) = (qualified_name dt l, built dt (qualified_name dt l) (l # b) (header_level l))"
  by (simp add: chunk_section_def built_def chunk_lines_def)

lemma run_open:
  "name \<noteq> [] \<Longrightarrow>
   finish dt (foldl (parse_line dt) (open_state secs name cc lvl) ls) =
   dict_merge secs
     ((name, built dt name (cc @ takeWhile (\<lambda>x. \<not> is_header x) ls) lvl)
      # map (chunk_section dt) (header_chunks ls))"
proof (induction ls arbitrary: secs name cc lvl)
  case Nil
  then show ?case by (simp add: finish_def save_open) (simp add: open_state_def)
next
  case (Cons l ls)
  show ?case
  proof (cases "is_header l")
    case True
    have ne: "qualified_name dt l \<noteq> []" by (simp add: qualified_name_def)
    have "foldl (parse_line dt) (open_state secs name cc lvl) (l # ls) =
          foldl (parse_line dt) (open_state (dict_set secs name (built dt name cc lvl))
             (qualified_name dt l) [l] (header_level l)) ls"
      using True Cons.prems by (simp add: parse_line_header)
    then show ?thesis
      using True by (simp add: Cons.IH [OF ne] chunk_section_built)
  next
    case False
    then show ?thesis
      using Cons.prems by (simp add: parse_line_body Cons.IH [OF Cons.prems])
  qed
qed

lemma parse_line_closed_header:
  assumes "is_header l"
  shows "parse_line dt \<lparr>sections = [], current_section = None, current_content = [], current_level = 0\<rparr> l =
         open_state [] (qualified_name dt l) [l] (header_level l)"
proof -
  from assms obtain g1 g2 where hm: "header_match l = Some (g1, g2)"
    by (auto simp: is_header_def)
  then show ?thesis
    by (simp add: parse_line_def header_title_def header_level_def open_state_def qualified_name_def)
qed

lemma run_closed:
  "finish dt (foldl (parse_line dt)
      \<lparr>sections = [], current_section = None, current_content = [], current_level = 0\<rparr> ls) =
   dict_merge [] (map (chunk_section dt) (header_chunks ls))"
proof (induction ls)
  case Nil
  show ?case by (simp add: finish_def)
next
  case (Cons l ls)
  show ?case
  proof (cases "is_header l")
    case True
    have ne: "qualified_name dt l \<noteq> []" by (simp add: qualified_name_def)
    show ?thesis using True
      by (simp add: parse_line_closed_header run_open [OF ne] chunk_section_built)
  next
    case False
    then have "header_match l = None" by (cases "header_match l") (auto simp: is_header_def)
    then have "parse_line dt \<lparr>sections = [], current_section = None, current_content = [], current_level = 0\<rparr> l
       = \<lparr>sections = [], current_section = None, current_content = [], current_level = 0\<rparr>"
      by (simp add: parse_line_def)
    with False Cons show ?thesis by simp
  qed
qed

lemma parse_sections_chunks:
  "parse_sections D dt = dict_merge [] (map (chunk_section dt) (header_chunks (split_nl D)))"
  using run_closed [of dt "split_nl D"]
  by (simp add: parse_sections_def finish_def Let_def)

lemma concat_header_chunks:
  "concat (map chunk_lines (header_chunks ls)) = dropWhile (\<lambda>x. \<not> is_header x) ls"
proof (induction ls)
  case Nil show ?case by simp
next
  case (Cons l ls)
  have tw: "takeWhile (\<lambda>x. \<not> is_header x) ls @ dropWhile (\<lambda>x. \<not> is_header x) ls = ls" by simp
  show ?case using Cons 
    by (auto simp: chunk_lines_def)
qed

lemma heads_header_chunks: "map fst (header_chunks ls) = filter is_header ls"
  by (induction ls) auto

lemma keys_chunk_sections:
  "map fst (map (chunk_section dt) (header_chunks ls)) = map (qualified_name dt) (filter is_header ls)"
proof -
  have "map fst (map (chunk_section dt) chs) = map (qualified_name dt) (map fst chs)" for chs
    by (simp add: chunk_section_def)
  then have "map fst (map (chunk_section dt) (header_chunks ls)) =
             map (qualified_name dt) (map fst (header_chunks ls))" .
  then show ?thesis by (simp only: heads_header_chunks)
qed

lemma distinct_qualified:
  "distinct (map (qualified_name dt) ls) = distinct (map header_title ls)"
proof -
  have inj: "inj (\<lambda>t. dt @ '': '' @ t)" by (rule injI) simp
  have *: "distinct (map (\<lambda>t. dt @ '': '' @ t) ys) = distinct ys" for ys :: "string list"
    using inj_on_subset [OF inj subset_UNIV, of "set ys"] by (simp only: distinct_map simp_thms)
  have eq: "map (qualified_name dt) ls = map (\<lambda>t. dt @ '': '' @ t) (map header_title ls)"
    by (simp add: qualified_name_def)
  show ?thesis unfolding eq by (rule *)
qed

lemma parse_sections_distinct_titles:
  assumes "distinct (map header_title (filter is_header (split_nl D)))"
  shows "parse_sections D dt = map (chunk_section dt) (header_chunks (split_nl D))"
proof -
  have "distinct (map fst (map (chunk_section dt) (header_chunks (split_nl D))))"
    using assms by (simp only: keys_chunk_sections distinct_qualified)
  then show ?thesis
    by (simp only: parse_sections_chunks dict_merge_Nil_distinct)
qed

lemma distinct_keys_parse_sections: "distinct (map fst (parse_sections D dt))"
  by (simp add: parse_sections_chunks distinct_dict_merge)



lemma distinct_keys_init: "distinct (map fst (all_sections (DocumentParser_init d1 d2)))"
  by (simp add: DocumentParser_init_def Let_def distinct_dict_merge distinct_keys_parse_sections)

lemma dict_get_merge:
  assumes "distinct (map fst b)"
  shows "dict_get (dict_merge a b) q = (case dict_get b q of Some s \<Rightarrow> Some s | None \<Rightarrow> dict_get a q)"
proof -
  have "map_of (rev b) = map_of b"
    using assms by (simp add: map_of_inject_set distinct_rev rev_map [symmetric])
  then show ?thesis
    by (simp add: dict_get_def map_of_dict_merge map_add_def split: option.splits)
qed

lemma dict_get_last:
  assumes "kvs = before @ kv # after" "fst kv \<notin> fst ` set after"
  shows "dict_get (dict_merge [] kvs) (fst kv) = Some (snd kv)"
proof -
  have "map_of (rev after) (fst kv) = None"
    using assms(2) by (simp add: map_of_eq_None_iff)
  then show ?thesis
    by (simp add: dict_get_def map_of_dict_merge assms(1) map_add_def)
qed

section \<open>What the search loops compute\<close>

lemma py_in_Nil: "py_in [] s"
  by (cases s) simp_all

lemma fold_case_Nil: "fold_case cs [] = []"
  by (simp add: fold_case_def lower_def)

lemma name_step_fold:
  "foldl (name_step k cs) acc items =
   acc @ map name_entry (filter (\<lambda>item. py_in k (fold_case cs (fst item))) items)"
  by (induction items arbitrary: acc) (simp_all add: name_step_def name_entry_def fold_case_def)

lemma name_results_filter:
  "name_results self kw cs =
   map name_entry
     (filter (\<lambda>item. py_in (fold_case cs kw) (fold_case cs (fst item))) (all_sections self))"
  using name_step_fold [of "fold_case cs kw" cs "[]" "all_sections self"]
  by (simp add: name_results_def fold_case_def)

lemma text_step_fold:
  "foldl (text_step k cs) acc items =
   acc @ map (text_entry k cs) (filter (\<lambda>item. py_in k (fold_case cs (content (snd item)))) items)"
  by (induction items arbitrary: acc) (simp_all add: text_step_def text_entry_def fold_case_def Let_def)

lemma text_results_filter:
  "text_results self kw cs =
   map (text_entry (fold_case cs kw) cs)
     (filter (\<lambda>item. py_in (fold_case cs kw) (fold_case cs (content (snd item))))
        (all_sections self))"
  using text_step_fold [of "fold_case cs kw" cs "[]" "all_sections self"]
  by (simp add: text_results_def fold_case_def)

lemma filter_map_entries:
  assumes "\<And>x. g (e x) = h x" "\<And>x. n (e x) = fst x"
  shows "map n (filter (\<lambda>r. g r = k) (map e xs)) = map fst (filter (\<lambda>x. h x = k) xs)"
  using assms by (induction xs) simp_all

lemma slice_nth: "b \<le> length xs \<Longrightarrow> slice xs a b = map (\<lambda>j. xs ! j) [a ..< b]"
proof -
  assume b: "b \<le> length xs"
  have "take b xs = take b (map (\<lambda>j. xs ! j) [0 ..< length xs])" by (simp add: map_nth)
  also have "\<dots> = map (\<lambda>j. xs ! j) [0 ..< b]" using b by (simp add: take_map)
  finally show ?thesis by (simp add: slice_def drop_map)
qed

lemma slice_take: "slice xs 0 n = take n xs"
  by (simp add: slice_def)

lemma enumerate_from0_nth: "enumerate_from0 xs = map (\<lambda>i. (i, xs ! i)) [0 ..< length xs]"
  by (rule nth_equalityI) (simp_all add: enumerate_from0_def)

lemma context_step_fold:
  "foldl (context_step k cs ls) acc ils =
   acc @ concat (map (\<lambda>il. if py_in k (fold_case cs (snd il)) then context_window ls (fst il) else []) ils)"
proof (induction ils arbitrary: acc)
  case Nil
  show ?case by simp
next
  case (Cons il ils)
  have "nat (max 0 (int (fst il) - 1)) = fst il - 1" by simp
  then have "context_step k cs ls acc il =
        acc @ (if py_in k (fold_case cs (snd il)) then context_window ls (fst il) else [])"
    by (simp add: context_step_def context_window_def fold_case_def slice_nth Let_def
        del: nat_diff_distrib)
  then show ?case by (simp add: Cons.IH)
qed

lemma concat_map_if: "concat (map (\<lambda>x. if P x then f x else []) xs) = concat (map f (filter P xs))"
  by (induction xs) simp_all

lemma context_lines:
  "foldl (context_step (fold_case cs kw) cs ls) [] (enumerate_from0 ls) =
   concat (map (context_window ls) (matching_indices kw cs ls))"
  by (simp add: context_step_fold enumerate_from0_nth comp_def concat_map_if matching_indices_def)

lemma py_count_Nil: "py_count s [] = length s + 1"
  by (simp add: py_count_def)


section \<open>The claims\<close>

text \<open>
  C1, as the code has it. When no two header lines of the document \<open>D\<close> have the
  same trimmed text, the \<^verbatim>\<open>content\<close> entries of the parsed sections, in the order of the
  dictionary, are the sections of the document in document order, each joined with
  newlines and stripped; the lines of these sections, put one behind the other, are the
  lines of \<open>D\<close> from its first header line on; and joining the lines of \<open>D\<close>
  gives \<open>D\<close> back.
\<close>

theorem sections_rejoin_document:
  assumes "distinct (map header_title (filter is_header (split_nl D)))"
  shows "map (content \<circ> snd) (parse_sections D dt) =
           map (strip \<circ> join_nl \<circ> chunk_lines) (header_chunks (split_nl D))
       \<and> concat (map chunk_lines (header_chunks (split_nl D))) =
           dropWhile (\<lambda>l. \<not> is_header l) (split_nl D)
       \<and> join_nl (split_nl D) = D"
proof -
  have "map (content \<circ> snd) (map (chunk_section dt) chs) =
        map (strip \<circ> join_nl \<circ> chunk_lines) chs" for chs
    by (simp add: chunk_section_def)
  then show ?thesis
    by (simp only: parse_sections_distinct_titles [OF assms] concat_header_chunks join_split_nl
        simp_thms)
qed

text \<open>The theorem at a document with a discarded prefix, a blank line and two headers.\<close>

theorem sections_rejoin_document_witness:
  "distinct (map header_title (filter is_header (split_nl ''intro\<newline># A\<newline>x\<newline>\<newline>## B\<newline>y\<newline>'')))
   \<and> map (content \<circ> snd) (parse_sections ''intro\<newline># A\<newline>x\<newline>\<newline>## B\<newline>y\<newline>'' ''Doc'') =
       [''# A\<newline>x'', ''## B\<newline>y'']
   \<and> concat (map chunk_lines (header_chunks (split_nl ''intro\<newline># A\<newline>x\<newline>\<newline>## B\<newline>y\<newline>''))) =
       [''# A'', ''x'', '''', ''## B'', ''y'', '''']"
proof -
  have h: "distinct (map header_title (filter is_header (split_nl ''intro\<newline># A\<newline>x\<newline>\<newline>## B\<newline>y\<newline>'')))"
    by code_simp
  have c: "map (strip \<circ> join_nl \<circ> chunk_lines) (header_chunks (split_nl ''intro\<newline># A\<newline>x\<newline>\<newline>## B\<newline>y\<newline>'')) =
       [''# A\<newline>x'', ''## B\<newline>y'']"
    by code_simp
  have d: "dropWhile (\<lambda>l. \<not> is_header l) (split_nl ''intro\<newline># A\<newline>x\<newline>\<newline>## B\<newline>y\<newline>'') =
       [''# A'', ''x'', '''', ''## B'', ''y'', '''']"
    by code_simp
  from sections_rejoin_document [OF h, of "''Doc''"] h c d show ?thesis
    by (simp only: simp_thms)
qed

text \<open>
  C1 as stated fails when a header text occurs twice: the second section takes the key
  of the first, whose lines \<^verbatim>\<open># A\<close>, \<^verbatim>\<open>x\<close> are in no \<^verbatim>\<open>content\<close> afterwards. The
  character \<^verbatim>\<open>x\<close> of the document, which is not whitespace, is in no section.
\<close>

theorem sections_rejoin_document_counterexample:
  "map (content \<circ> snd) (parse_sections ''# A\<newline>x\<newline># A\<newline>y'' ''Doc'') = [''# A\<newline>y'']
   \<and> map (strip \<circ> join_nl \<circ> chunk_lines) (header_chunks (split_nl ''# A\<newline>x\<newline># A\<newline>y'')) =
       [''# A\<newline>x'', ''# A\<newline>y'']
   \<and> map (content \<circ> snd) (parse_sections ''# A\<newline>x\<newline># A\<newline>y'' ''Doc'') \<noteq>
       map (strip \<circ> join_nl \<circ> chunk_lines) (header_chunks (split_nl ''# A\<newline>x\<newline># A\<newline>y''))
   \<and> CHR ''x'' \<in> set ''# A\<newline>x\<newline># A\<newline>y''
   \<and> CHR ''x'' \<notin> set (concat (map (content \<circ> snd)
         (parse_sections ''# A\<newline>x\<newline># A\<newline>y'' ''Doc'')))"
  by code_simp




text \<open>
  C3, as the code has it. The document of the scenario, parsed with the type \<^verbatim>\<open>Doc\<close>,
  gives the two sections \<^verbatim>\<open>Doc: A\<close> (level 1) and \<^verbatim>\<open>Doc: B\<close> (level 2) with the
  contents of the claim, each with a word count of 4: the header marker and the header
  text are words of the content. The content search for \<^verbatim>\<open>hello\<close> on the index of
  these sections returns both, each with one match, \<^verbatim>\<open>Doc: A\<close> first.
\<close>

theorem scenario_two_sections:
  "parse_sections ''# A\<newline>hello world\<newline>## B\<newline>hello again\<newline>'' ''Doc'' =
     [(''Doc: A'', \<lparr>title = ''Doc: A'', content = ''# A\<newline>hello world'', level = 1,
                    doc_type = ''Doc'', word_count = 4\<rparr>),
      (''Doc: B'', \<lparr>title = ''Doc: B'', content = ''## B\<newline>hello again'', level = 2,
                    doc_type = ''Doc'', word_count = 4\<rparr>)]
   \<and> search_by_content_text
         \<lparr>mcp_sections = parse_sections ''# A\<newline>hello world\<newline>## B\<newline>hello again\<newline>'' ''Doc'',
          sdk_sections = [],
          all_sections = dict_merge (parse_sections ''# A\<newline>hello world\<newline>## B\<newline>hello again\<newline>'' ''Doc'') []\<rparr>
         ''hello'' False =
     [\<lparr>section_name = ''Doc: A'', doc_type = ''Doc'', level = 1, word_count = 4,
       matching_context = ''# A\<newline>hello world'', match_count = 1\<rparr>,
      \<lparr>section_name = ''Doc: B'', doc_type = ''Doc'', level = 2, word_count = 4,
       matching_context = ''## B\<newline>hello again'', match_count = 1\<rparr>]"
  by code_simp

text \<open>
  C3 as stated fails on the word counts: they are 4 and 4, not 3 and 3.
\<close>

theorem scenario_two_sections_counterexample:
  "map (section_data.word_count \<circ> snd)
     (parse_sections ''# A\<newline>hello world\<newline>## B\<newline>hello again\<newline>'' ''Doc'') = [4, 4]
   \<and> map (section_data.word_count \<circ> snd)
     (parse_sections ''# A\<newline>hello world\<newline>## B\<newline>hello again\<newline>'' ''Doc'') \<noteq> [3, 3]"
  by code_simp

text \<open>
  C4. Every result of the content search comes from a section of the index, and its
  \<^verbatim>\<open>match_count\<close> is the count of the keyword in the whole content of that section,
  both as the case flag leaves them: what \<^verbatim>\<open>str.count\<close> returns, which is the number of
  non-overlapping occurrences. For the empty keyword every section of the index has one
  result, and its count is one more than the length of the text in which the code
  counts: the content as the case flag leaves it, which is \<^verbatim>\<open>content.lower()\<close> when
  the search is not case sensitive.
\<close>

theorem content_search_match_count:
  "(\<forall>r \<in> set (search_by_content_text self kw cs).
      \<exists>item \<in> set (all_sections self).
        section_name r = fst item
        \<and> match_count r = py_count (fold_case cs (content (snd item))) (fold_case cs kw)
        \<and> occurrence_count (fold_case cs kw) (fold_case cs (content (snd item))) (match_count r))
   \<and> mset (map (\<lambda>r. (section_name r, match_count r)) (search_by_content_text self [] cs)) =
       mset (map (\<lambda>item. (fst item, length (fold_case cs (content (snd item))) + 1)) (all_sections self))"
proof (rule conjI)
  show "\<forall>r \<in> set (search_by_content_text self kw cs).
      \<exists>item \<in> set (all_sections self).
        section_name r = fst item
        \<and> match_count r = py_count (fold_case cs (content (snd item))) (fold_case cs kw)
        \<and> occurrence_count (fold_case cs kw) (fold_case cs (content (snd item))) (match_count r)"
  proof
    fix r
    assume "r \<in> set (search_by_content_text self kw cs)"
    then have "r \<in> set (text_results self kw cs)"
      by (simp add: search_by_content_text_def set_sorted_by_reverse)
    then obtain item where item: "item \<in> set (all_sections self)"
      and r: "r = text_entry (fold_case cs kw) cs item"
      by (auto simp: text_results_filter)
    have "section_name r = fst item
        \<and> match_count r = py_count (fold_case cs (content (snd item))) (fold_case cs kw)
        \<and> occurrence_count (fold_case cs kw) (fold_case cs (content (snd item))) (match_count r)"
      by (simp add: r text_entry_def py_count_occurrences)
    with item show "\<exists>item \<in> set (all_sections self).
        section_name r = fst item
        \<and> match_count r = py_count (fold_case cs (content (snd item))) (fold_case cs kw)
        \<and> occurrence_count (fold_case cs kw) (fold_case cs (content (snd item))) (match_count r)" ..
  qed
next
  have "map (\<lambda>r. (section_name r, match_count r)) (text_results self [] cs) =
        map (\<lambda>item. (fst item, length (fold_case cs (content (snd item))) + 1)) (all_sections self)"
    by (simp add: text_results_filter fold_case_Nil py_in_Nil text_entry_def comp_def
        py_count_Nil)
  moreover have "mset (map g (sorted_by_reverse match_count xs)) = mset (map g xs)"
    for xs :: "text_result list" and g :: "text_result \<Rightarrow> string \<times> nat"
    by (simp add: mset_sorted_by_reverse)
  ultimately show "mset (map (\<lambda>r. (section_name r, match_count r)) (search_by_content_text self [] cs)) =
       mset (map (\<lambda>item. (fst item, length (fold_case cs (content (snd item))) + 1)) (all_sections self))"
    by (simp only: search_by_content_text_def)
qed

text \<open>
  The theorem on the sample index: the section \<^verbatim>\<open>Setup\<close> holds the keyword three
  times in one line. The last conjunct lists the results for the empty keyword.
\<close>

theorem content_search_match_count_witness:
  "\<lparr>section_name = ''MCP Documentation: Setup'', doc_type = ''MCP Documentation'', level = 2,
     word_count = 5, matching_context = ''## Setup\<newline>hello hello hello'', match_count = 3\<rparr>
     \<in> set (search_by_content_text sample_index ''Hello'' False)
   \<and> dict_get (all_sections sample_index) ''MCP Documentation: Setup'' =
       Some \<lparr>title = ''MCP Documentation: Setup'', content = ''## Setup\<newline>hello hello hello'',
              level = 2, doc_type = ''MCP Documentation'', word_count = 5\<rparr>
   \<and> py_count (fold_case False ''## Setup\<newline>hello hello hello'') (fold_case False ''Hello'') = 3
   \<and> map (\<lambda>r. (section_name r, match_count r)) (search_by_content_text sample_index '''' False) =
       [(''MCP Documentation: Setup'', 27), (''MCP Documentation: Intro'', 22),
        (''Python SDK: API'', 18), (''MCP Documentation: Usage'', 12)]"
proof -
  let ?r = "\<lparr>section_name = ''MCP Documentation: Setup'', doc_type = ''MCP Documentation'', level = 2,
     word_count = 5, matching_context = ''## Setup\<newline>hello hello hello'', match_count = 3\<rparr>"
  have m: "?r \<in> set (search_by_content_text sample_index ''Hello'' False)"
    by code_simp
  have g: "dict_get (all_sections sample_index) ''MCP Documentation: Setup'' =
       Some \<lparr>title = ''MCP Documentation: Setup'', content = ''## Setup\<newline>hello hello hello'',
              level = 2, doc_type = ''MCP Documentation'', word_count = 5\<rparr>"
    by code_simp
  have e: "map (\<lambda>r. (section_name r, match_count r)) (search_by_content_text sample_index '''' False) =
       [(''MCP Documentation: Setup'', 27), (''MCP Documentation: Intro'', 22),
        (''Python SDK: API'', 18), (''MCP Documentation: Usage'', 12)]"
    by code_simp
  from content_search_match_count [of sample_index "''Hello''" False] m
  obtain item where i: "item \<in> set (all_sections sample_index)"
    and n: "section_name ?r = fst item"
    and c: "match_count ?r = py_count (fold_case False (content (snd item))) (fold_case False ''Hello'')"
    by blast
  have "distinct (map fst (all_sections sample_index))"
    unfolding sample_index_def by (rule distinct_keys_init)
  with i have "dict_get (all_sections sample_index) (fst item) = Some (snd item)"
    by (simp add: dict_get_def)
  with n g have ceq: "content (snd item) = ''## Setup\<newline>hello hello hello''" by simp
  from c have "3 = py_count (fold_case False ''## Setup\<newline>hello hello hello'') (fold_case False ''Hello'')"
    by (simp only: ceq text_result.select_convs)
  then have "py_count (fold_case False ''## Setup\<newline>hello hello hello'') (fold_case False ''Hello'') = 3"
    by (rule sym)
  with m g e show ?thesis by (simp only: simp_thms)
qed

text \<open>
  C5. The results of the content search are in descending order of \<^verbatim>\<open>match_count\<close>,
  and for every count \<open>k\<close> the results with that count stand in the order in which
  the index holds their sections.
\<close>

theorem content_search_sorted_stable:
  "sorted_wrt (\<lambda>a b. match_count b \<le> match_count a) (search_by_content_text self kw cs)
   \<and> (\<forall>k. map section_name
             (filter (\<lambda>r. match_count r = k) (search_by_content_text self kw cs)) =
           map fst
             (filter (\<lambda>item. py_count (fold_case cs (content (snd item))) (fold_case cs kw) = k)
                (filter (\<lambda>item. py_in (fold_case cs kw) (fold_case cs (content (snd item))))
                   (all_sections self))))"
proof -
  have "map section_name (filter (\<lambda>r. match_count r = k) (text_results self kw cs)) =
        map fst
          (filter (\<lambda>item. py_count (fold_case cs (content (snd item))) (fold_case cs kw) = k)
             (filter (\<lambda>item. py_in (fold_case cs kw) (fold_case cs (content (snd item))))
                (all_sections self)))" for k
    unfolding text_results_filter
    by (rule filter_map_entries) (simp_all add: text_entry_def)
  then show ?thesis
    by (simp add: search_by_content_text_def sorted_by_reverse_sorted sorted_by_reverse_stable)
qed

text \<open>
  C6. The search in the section names with the empty keyword, not case sensitive, has
  one result for every section of the index. For every keyword the results are in
  ascending order of \<^verbatim>\<open>level\<close>, and for every level \<open>k\<close> the results of that level
  stand in the order in which the index holds their sections.
\<close>

theorem title_search_all_sorted:
  "mset (map section_name (search_by_section_name self [] False)) = mset (map fst (all_sections self))
   \<and> sorted (map summary.level (search_by_section_name self kw cs))
   \<and> (\<forall>k. map section_name
             (filter (\<lambda>r. summary.level r = k) (search_by_section_name self kw cs)) =
           map fst
             (filter (\<lambda>item. section_data.level (snd item) = k)
                (filter (\<lambda>item. py_in (fold_case cs kw) (fold_case cs (fst item)))
                   (all_sections self))))"
proof -
  have "map section_name (name_results self [] False) = map fst (all_sections self)"
    by (simp add: name_results_filter fold_case_Nil py_in_Nil name_entry_def comp_def)
  moreover have "mset (map section_name (sorted_by summary.level xs)) = mset (map section_name xs)"
    for xs :: "name_result list"
    by (simp add: mset_sorted_by)
  ultimately have all: "mset (map section_name (search_by_section_name self [] False)) =
                  mset (map fst (all_sections self))"
    by (simp only: search_by_section_name_def)
  have "map section_name (filter (\<lambda>r. summary.level r = k) (name_results self kw cs)) =
        map fst
          (filter (\<lambda>item. section_data.level (snd item) = k)
             (filter (\<lambda>item. py_in (fold_case cs kw) (fold_case cs (fst item)))
                (all_sections self)))" for k
    unfolding name_results_filter
    by (rule filter_map_entries) (simp_all add: name_entry_def)
  with all show ?thesis
    by (simp add: search_by_section_name_def sorted_by_sorted sorted_by_stable)
qed

text \<open>
  C7. Every result of the search in the section names comes from a section of the
  index; its \<^verbatim>\<open>preview\<close> is the first 200 characters of the content followed by three
  dots when the content is longer than 200 characters, and the content otherwise. A
  content of 250 characters gives a preview of 203.
\<close>

theorem title_search_preview:
  "\<forall>r \<in> set (search_by_section_name self kw cs).
     \<exists>item \<in> set (all_sections self).
       section_name r = fst item
       \<and> preview r =
           (if 200 < length (content (snd item)) then take 200 (content (snd item)) @ ''...''
            else content (snd item))
       \<and> (length (content (snd item)) = 250 \<longrightarrow> length (preview r) = 203)"
proof
  fix r
  assume "r \<in> set (search_by_section_name self kw cs)"
  then have "r \<in> set (name_results self kw cs)"
    by (simp add: search_by_section_name_def set_sorted_by)
  then obtain item where item: "item \<in> set (all_sections self)" and r: "r = name_entry item"
    by (auto simp: name_results_filter)
  have "section_name r = fst item
       \<and> preview r =
           (if 200 < length (content (snd item)) then take 200 (content (snd item)) @ ''...''
            else content (snd item))
       \<and> (length (content (snd item)) = 250 \<longrightarrow> length (preview r) = 203)"
    by (simp add: r name_entry_def make_preview_def)
  with item show "\<exists>item \<in> set (all_sections self).
       section_name r = fst item
       \<and> preview r =
           (if 200 < length (content (snd item)) then take 200 (content (snd item)) @ ''...''
            else content (snd item))
       \<and> (length (content (snd item)) = 250 \<longrightarrow> length (preview r) = 203)" ..
qed

text \<open>
  The theorem on the index of the document with one section of 250 characters.
\<close>

theorem title_search_preview_witness:
  "map (length \<circ> content \<circ> snd) (all_sections long_index) = [250]
   \<and> search_by_section_name long_index ''documentation'' False =
       [\<lparr>section_name = ''MCP Documentation: A'', doc_type = ''MCP Documentation'', level = 1,
         word_count = 3, preview = ''# A\<newline>'' @ replicate 196 (CHR ''a'') @ ''...''\<rparr>]
   \<and> length (preview
         \<lparr>section_name = ''MCP Documentation: A'', doc_type = ''MCP Documentation'', level = 1,
          word_count = 3, preview = ''# A\<newline>'' @ replicate 196 (CHR ''a'') @ ''...''\<rparr>) = 203"
proof -
  let ?r = "\<lparr>section_name = ''MCP Documentation: A'', doc_type = ''MCP Documentation'', level = 1,
         word_count = 3, preview = ''# A\<newline>'' @ replicate 196 (CHR ''a'') @ ''...''\<rparr>"
  have l: "map (length \<circ> content \<circ> snd) (all_sections long_index) = [250]"
    by code_simp
  have e: "search_by_section_name long_index ''documentation'' False = [?r]"
    by code_simp
  then have m: "?r \<in> set (search_by_section_name long_index ''documentation'' False)"
    by (simp only: list.set insertI1)
  from title_search_preview [of long_index "''documentation''" False] m
  obtain item where i: "item \<in> set (all_sections long_index)"
    and c: "length (content (snd item)) = 250 \<longrightarrow> length (preview ?r) = 203"
    by blast
  from i have "(length \<circ> content \<circ> snd) item
      \<in> set (map (length \<circ> content \<circ> snd) (all_sections long_index))"
    by simp
  then have "length (content (snd item)) = 250" by (simp only: l) simp
  with c have "length (preview ?r) = 203" by (rule mp)
  with l e show ?thesis by (simp only: simp_thms)
qed

text \<open>
  C8. Every result of the content search comes from a section of the index, and its
  \<^verbatim>\<open>matching_context\<close> joins the first ten lines of the windows of all matching lines
  of the content: for every index \<open>i\<close> of a line that holds the keyword, in ascending
  order, the lines \<open>i - 1\<close> to \<open>i + 1\<close> that exist, with no line removed where two
  windows overlap.
\<close>

theorem content_search_context:
  "\<forall>r \<in> set (search_by_content_text self kw cs).
     \<exists>item \<in> set (all_sections self).
       section_name r = fst item
       \<and> matching_context r =
           join_nl (take 10
             (concat (map (context_window (split_nl (content (snd item))))
                (matching_indices kw cs (split_nl (content (snd item)))))))"
proof
  fix r
  assume "r \<in> set (search_by_content_text self kw cs)"
  then have "r \<in> set (text_results self kw cs)"
    by (simp add: search_by_content_text_def set_sorted_by_reverse)
  then obtain item where item: "item \<in> set (all_sections self)"
    and r: "r = text_entry (fold_case cs kw) cs item"
    by (auto simp: text_results_filter)
  have "section_name r = fst item
       \<and> matching_context r =
           join_nl (take 10
             (concat (map (context_window (split_nl (content (snd item))))
                (matching_indices kw cs (split_nl (content (snd item)))))))"
    by (simp add: r text_entry_def context_lines slice_take)
  with item show "\<exists>item \<in> set (all_sections self).
       section_name r = fst item
       \<and> matching_context r =
           join_nl (take 10
             (concat (map (context_window (split_nl (content (snd item))))
                (matching_indices kw cs (split_nl (content (snd item)))))))" ..
qed

text \<open>
  The theorem on the sample index: lines 1 and 2 of the section \<^verbatim>\<open>Intro\<close> match, and
  their windows share two lines, which the context holds twice.
\<close>

theorem content_search_context_witness:
  "\<lparr>section_name = ''MCP Documentation: Intro'', doc_type = ''MCP Documentation'', level = 1,
     word_count = 5, matching_context = ''# Intro\<newline>hello\<newline>hello\<newline>hello\<newline>hello\<newline>x'',
     match_count = 2\<rparr>
     \<in> set (search_by_content_text sample_index ''hello'' False)
   \<and> matching_indices ''hello'' False [''# Intro'', ''hello'', ''hello'', ''x''] = [1, 2]
   \<and> map (context_window [''# Intro'', ''hello'', ''hello'', ''x'']) [1, 2] =
       [[''# Intro'', ''hello'', ''hello''], [''hello'', ''hello'', ''x'']]
   \<and> join_nl (take 10 (concat (map (context_window (split_nl ''# Intro\<newline>hello\<newline>hello\<newline>x''))
         (matching_indices ''hello'' False (split_nl ''# Intro\<newline>hello\<newline>hello\<newline>x''))))) =
       ''# Intro\<newline>hello\<newline>hello\<newline>hello\<newline>hello\<newline>x''"
proof -
  let ?r = "\<lparr>section_name = ''MCP Documentation: Intro'', doc_type = ''MCP Documentation'', level = 1,
     word_count = 5, matching_context = ''# Intro\<newline>hello\<newline>hello\<newline>hello\<newline>hello\<newline>x'',
     match_count = 2\<rparr>"
  have m: "?r \<in> set (search_by_content_text sample_index ''hello'' False)"
    by code_simp
  have g: "dict_get (all_sections sample_index) ''MCP Documentation: Intro'' =
       Some \<lparr>title = ''MCP Documentation: Intro'', content = ''# Intro\<newline>hello\<newline>hello\<newline>x'',
              level = 1, doc_type = ''MCP Documentation'', word_count = 5\<rparr>"
    by code_simp
  have a: "matching_indices ''hello'' False [''# Intro'', ''hello'', ''hello'', ''x''] = [1, 2]"
    by code_simp
  have b: "map (context_window [''# Intro'', ''hello'', ''hello'', ''x'']) [1, 2] =
       [[''# Intro'', ''hello'', ''hello''], [''hello'', ''hello'', ''x'']]"
    by code_simp
  from content_search_context [of sample_index "''hello''" False] m
  obtain item where i: "item \<in> set (all_sections sample_index)"
    and n: "section_name ?r = fst item"
    and c: "matching_context ?r =
           join_nl (take 10
             (concat (map (context_window (split_nl (content (snd item))))
                (matching_indices ''hello'' False (split_nl (content (snd item)))))))"
    by blast
  have "distinct (map fst (all_sections sample_index))"
    unfolding sample_index_def by (rule distinct_keys_init)
  with i have "dict_get (all_sections sample_index) (fst item) = Some (snd item)"
    by (simp add: dict_get_def)
  with n g have ceq: "content (snd item) = ''# Intro\<newline>hello\<newline>hello\<newline>x''" by simp
  from c have "''# Intro\<newline>hello\<newline>hello\<newline>hello\<newline>hello\<newline>x'' =
       join_nl (take 10 (concat (map (context_window (split_nl ''# Intro\<newline>hello\<newline>hello\<newline>x''))
         (matching_indices ''hello'' False (split_nl ''# Intro\<newline>hello\<newline>hello\<newline>x'')))))"
    by (simp only: ceq text_result.select_convs)
  then have "join_nl (take 10 (concat (map (context_window (split_nl ''# Intro\<newline>hello\<newline>hello\<newline>x''))
         (matching_indices ''hello'' False (split_nl ''# Intro\<newline>hello\<newline>hello\<newline>x''))))) =
       ''# Intro\<newline>hello\<newline>hello\<newline>hello\<newline>hello\<newline>x''"
    by (rule sym)
  with m a b show ?thesis by (simp only: simp_thms)
qed

text \<open>
  C9. In an index whose keys are distinct, as those of every dictionary are, the lookup
  of a name answers with the section stored under that name when there is one and
  with \<^const>\<open>None\<close> when the name is not a key, and it leaves the index as it was.
\<close>

theorem get_section_content_lookup:
  assumes "distinct (map fst (all_sections self))"
  shows "(\<forall>s. (n, s) \<in> set (all_sections self) \<longrightarrow> fst (get_section_content self n) = Some s)
       \<and> (n \<notin> fst ` set (all_sections self) \<longrightarrow> fst (get_section_content self n) = None)
       \<and> snd (get_section_content self n) = self"
  using assms by (simp add: get_section_content_def dict_get_def map_of_eq_None_iff)

text \<open>
  The theorem on the index of the scenario document, for a key and for an unknown name.
\<close>

theorem get_section_content_lookup_witness:
  "fst (get_section_content (DocumentParser_init ''# A\<newline>hello world\<newline>## B\<newline>hello again\<newline>'' '''')
          ''MCP Documentation: B'') =
     Some \<lparr>title = ''MCP Documentation: B'', content = ''## B\<newline>hello again'', level = 2,
            doc_type = ''MCP Documentation'', word_count = 4\<rparr>
   \<and> fst (get_section_content (DocumentParser_init ''# A\<newline>hello world\<newline>## B\<newline>hello again\<newline>'' '''')
          ''MCP Documentation: Z'') = None"
proof -
  let ?self = "DocumentParser_init ''# A\<newline>hello world\<newline>## B\<newline>hello again\<newline>'' ''''"
  let ?B = "\<lparr>title = ''MCP Documentation: B'', content = ''## B\<newline>hello again'', level = 2,
            doc_type = ''MCP Documentation'', word_count = 4\<rparr>"
  have d: "distinct (map fst (all_sections ?self))" by (rule distinct_keys_init)
  have i: "(''MCP Documentation: B'', ?B) \<in> set (all_sections ?self)" by code_simp
  have o: "''MCP Documentation: Z'' \<notin> fst ` set (all_sections ?self)" by code_simp
  from get_section_content_lookup [OF d, of "''MCP Documentation: B''"] i
  have 1: "fst (get_section_content ?self ''MCP Documentation: B'') = Some ?B" by blast
  from get_section_content_lookup [OF d, of "''MCP Documentation: Z''"] o
  have 2: "fst (get_section_content ?self ''MCP Documentation: Z'') = None" by blast
  from 1 2 show ?thesis by (rule conjI)
qed

text \<open>
  C10. The keys of the merged index are distinct. The index is the dictionary of the
  first document updated with the items of the second; in such a merge a key of the
  second dictionary gets the value of the second. Within one document, the section of a
  header line is the one stored under its qualified name when no later header has the
  same qualified name.
\<close>

theorem merged_index_last_write_wins:
  "distinct (map fst (all_sections (DocumentParser_init d1 d2)))
   \<and> all_sections (DocumentParser_init d1 d2) =
       dict_merge (parse_sections d1 ''MCP Documentation'') (parse_sections d2 ''Python SDK'')
   \<and> (distinct (map fst b) \<longrightarrow>
        dict_get (dict_merge a b) q =
          (case dict_get b q of Some s \<Rightarrow> Some s | None \<Rightarrow> dict_get a q))
   \<and> (header_chunks (split_nl D) = before @ ch # after
        \<and> qualified_name dt (fst ch) \<notin> qualified_name dt ` fst ` set after \<longrightarrow>
        dict_get (parse_sections D dt) (qualified_name dt (fst ch)) = Some (snd (chunk_section dt ch)))"
proof -
  have "dict_get (parse_sections D dt) (qualified_name dt (fst ch)) = Some (snd (chunk_section dt ch))"
    if hc: "header_chunks (split_nl D) = before @ ch # after"
      and nin: "qualified_name dt (fst ch) \<notin> qualified_name dt ` fst ` set after"
  proof -
    have k: "fst (chunk_section dt c) = qualified_name dt (fst c)" for c
      by (simp add: chunk_section_def)
    have "map (chunk_section dt) (header_chunks (split_nl D)) =
          map (chunk_section dt) before @ chunk_section dt ch # map (chunk_section dt) after"
      by (simp add: hc)
    moreover have "fst ` set (map (chunk_section dt) after) = qualified_name dt ` fst ` set after"
      by (simp add: image_image k)
    then have "fst (chunk_section dt ch) \<notin> fst ` set (map (chunk_section dt) after)"
      using nin by (simp only: k not_False_eq_True)
    ultimately have "dict_get (dict_merge [] (map (chunk_section dt) (header_chunks (split_nl D))))
           (fst (chunk_section dt ch)) = Some (snd (chunk_section dt ch))"
      by (rule dict_get_last)
    then show ?thesis by (simp only: parse_sections_chunks k)
  qed
  moreover have "all_sections (DocumentParser_init d1 d2) =
       dict_merge (parse_sections d1 ''MCP Documentation'') (parse_sections d2 ''Python SDK'')"
    by (simp add: DocumentParser_init_def Let_def)
  ultimately show ?thesis
    using distinct_keys_init [of d1 d2] dict_get_merge [of b a q] by blast
qed

text \<open>
  The theorem on a document with the header \<^verbatim>\<open># A\<close> twice, and on a merge of two
  dictionaries with a common key.
\<close>

theorem merged_index_last_write_wins_witness:
  "header_chunks (split_nl ''# A\<newline>x\<newline># A\<newline>y'') = [(''# A'', [''x''])] @ (''# A'', [''y'']) # []
   \<and> dict_get (parse_sections ''# A\<newline>x\<newline># A\<newline>y'' ''Doc'') ''Doc: A'' =
       Some \<lparr>title = ''Doc: A'', content = ''# A\<newline>y'', level = 1, doc_type = ''Doc'', word_count = 3\<rparr>
   \<and> dict_get (dict_merge [(''k'', 1::nat), (''l'', 2)] [(''k'', 3), (''m'', 4)]) ''k'' = Some 3"
proof -
  have h: "header_chunks (split_nl ''# A\<newline>x\<newline># A\<newline>y'') = [(''# A'', [''x''])] @ (''# A'', [''y'']) # []"
    by code_simp
  have n: "qualified_name ''Doc'' (fst (''# A'', [''y''])) \<notin> qualified_name ''Doc'' ` fst ` set []"
    by simp
  have q: "qualified_name ''Doc'' (fst (''# A'', [''y''])) = ''Doc: A''" by code_simp
  have c: "snd (chunk_section ''Doc'' (''# A'', [''y''])) =
     \<lparr>title = ''Doc: A'', content = ''# A\<newline>y'', level = 1, doc_type = ''Doc'', word_count = 3\<rparr>"
    by code_simp
  have d: "distinct (map fst [(''k'', 3::nat), (''m'', 4)])" by simp
  have g: "dict_get [(''k'', 3::nat), (''m'', 4)] ''k'' = Some 3" by (simp add: dict_get_def)
  note inst = merged_index_last_write_wins
    [of _ _ "[(''k'', 3::nat), (''m'', 4)]" "[(''k'', 1::nat), (''l'', 2)]" "''k''"
        "''# A\<newline>x\<newline># A\<newline>y''" "[(''# A'', [''x''])]" "(''# A'', [''y''])" "[]" "''Doc''"]
  from inst h n have "dict_get (parse_sections ''# A\<newline>x\<newline># A\<newline>y'' ''Doc'')
      (qualified_name ''Doc'' (fst (''# A'', [''y'']))) = Some (snd (chunk_section ''Doc'' (''# A'', [''y''])))"
    by blast
  then have 1: "dict_get (parse_sections ''# A\<newline>x\<newline># A\<newline>y'' ''Doc'') ''Doc: A'' =
       Some \<lparr>title = ''Doc: A'', content = ''# A\<newline>y'', level = 1, doc_type = ''Doc'', word_count = 3\<rparr>"
    by (simp only: q c)
  from inst d have "dict_get (dict_merge [(''k'', 1::nat), (''l'', 2)] [(''k'', 3), (''m'', 4)]) ''k'' =
          (case dict_get [(''k'', 3::nat), (''m'', 4)] ''k'' of Some s \<Rightarrow> Some s | None \<Rightarrow> dict_get [(''k'', 1::nat), (''l'', 2)] ''k'')"
    by blast
  then have 2: "dict_get (dict_merge [(''k'', 1::nat), (''l'', 2)] [(''k'', 3), (''m'', 4)]) ''k'' = Some 3"
    by (simp only: g option.case)
  from h 1 2 show ?thesis by (simp only: simp_thms)
qed

end
